theory Spec2Isabelle
  imports Main "HOL-Library.Sublist" "HOL-Library.Char_ord" "HOL-Library.List_Lexorder"
begin

section \<open>Python string operations used by Sitemapper.py\<close>

text \<open>
  Python's \<open>str\<close> is modelled as \<open>string\<close>. Only the operations the program calls are
  defined, each one with the behaviour it has in Python.
\<close>

definition startswith :: "string \<Rightarrow> string \<Rightarrow> bool" where
  \<comment> \<open>\<open>s.startswith(p)\<close>\<close>
  "startswith s p = prefix p s"

definition endswith :: "string \<Rightarrow> string \<Rightarrow> bool" where
  \<comment> \<open>\<open>s.endswith(p)\<close>\<close>
  "endswith s p = suffix p s"

definition lstrip :: "string \<Rightarrow> string \<Rightarrow> string" where
  \<comment> \<open>\<open>s.lstrip(chars)\<close>: drops leading characters for as long as they occur in \<open>chars\<close>;
      the argument is a set of characters, not a prefix.\<close>
  "lstrip s chars = dropWhile (\<lambda>c. c \<in> set chars) s"

fun contains :: "string \<Rightarrow> string \<Rightarrow> bool" where
  \<comment> \<open>\<open>p in s\<close> for strings: \<open>p\<close> occurs in \<open>s\<close> as a contiguous substring.\<close>
  "contains [] p = (p = [])"
| "contains (c # s) p = (prefix p (c # s) \<or> contains s p)"

fun split :: "string \<Rightarrow> char \<Rightarrow> string list" where
  \<comment> \<open>\<open>s.split(sep)\<close> for a one-character separator: \<open>"".split("/") == [""]\<close>,
      \<open>"/a".split("/") == ["", "a"]\<close>.\<close>
  "split [] sep = [[]]"
| "split (c # s) sep =
     (if c = sep then [] # split s sep
      else (case split s sep of [] \<Rightarrow> [[c]] | w # ws \<Rightarrow> (c # w) # ws))"

definition rsplit1 :: "string \<Rightarrow> char \<Rightarrow> string list" where
  \<comment> \<open>\<open>s.rsplit(sep, 1)\<close> for a one-character separator: one split at the last
      occurrence of \<open>sep\<close>, or \<open>[s]\<close> when \<open>sep\<close> does not occur.\<close>
  "rsplit1 s sep =
     (if sep \<in> set s
      then [rev (tl (dropWhile (\<lambda>c. c \<noteq> sep) (rev s))), rev (takeWhile (\<lambda>c. c \<noteq> sep) (rev s))]
      else [s])"

section \<open>The libraries the program calls\<close>

text \<open>
  \<open>urllib.parse\<close>, \<open>requests\<close>, \<open>bs4\<close> and \<open>concurrent.futures\<close> are not part of the
  program. They are parameters of the model, collected in the record \<open>env\<close>; every theorem
  below that quantifies over \<open>env\<close> holds for every behaviour of these libraries that has
  the given types.
\<close>

record parsed_url =
  \<comment> \<open>The attributes of \<open>urlparse(url)\<close> that the program reads.\<close>
  scheme :: string
  hostname :: "string option"
  path :: string

record response =
  status_code :: int
  content_type_header :: "string option"  \<comment> \<open>\<open>response.headers\<close> at \<open>"Content-Type"\<close>\<close>
  text_body :: string

datatype fetch_outcome =
    RequestException string  \<comment> \<open>\<open>requests.get\<close> raised \<open>requests.RequestException\<close>\<close>
  | OtherException string    \<comment> \<open>it raised an exception of another class\<close>
  | Response response

record html_tag =
  tag_name :: string
  tag_attrs :: "string \<rightharpoonup> string"  \<comment> \<open>the dictionary \<open>tag.attrs\<close>\<close>

record env =
  urlparse :: "string \<Rightarrow> parsed_url"
  urljoin :: "string \<Rightarrow> string \<Rightarrow> string"
  requests_get :: "nat \<Rightarrow> string \<Rightarrow> fetch_outcome"
    \<comment> \<open>the answer of the network to a request for a URL made in batch number \<open>k\<close>\<close>
  html_parser :: "string \<Rightarrow> html_tag list"
    \<comment> \<open>the tags of \<open>BeautifulSoup(text, 'html.parser')\<close> in document order\<close>
  completion_order :: "nat \<Rightarrow> string list"
    \<comment> \<open>the scheduling of batch number \<open>k\<close>: the URLs whose futures complete first, in
        that order\<close>

text \<open>
  \<open>as_completed(futures)\<close> yields every future of the batch once, in the order of
  completion, which the program does not control. The order is taken from the environment:
  the URLs of the batch that \<open>completion_order\<close> lists come first, in the listed order, and
  the URLs it does not list follow. The result is an enumeration of the batch whatever the
  environment lists, and every enumeration of the batch is the result for some environment
  (lemmas \<open>as_completed_set\<close>, \<open>as_completed_distinct\<close> and \<open>as_completed_any_order\<close>).
\<close>

definition as_completed :: "env \<Rightarrow> nat \<Rightarrow> string set \<Rightarrow> string list" where
  "as_completed e k batch =
     filter (\<lambda>url. url \<in> batch) (remdups (completion_order e k))
       @ sorted_list_of_set (batch - set (completion_order e k))"

section \<open>URL classification\<close>

definition get_hostname :: "env \<Rightarrow> string \<Rightarrow> string" where
  "get_hostname e url =
     (let host = (case hostname (urlparse e url) of None \<Rightarrow> [] | Some h \<Rightarrow> h)
      in if startswith host ''www.'' then lstrip host ''www.'' else host)"

definition get_path_depth :: "env \<Rightarrow> string \<Rightarrow> nat" where
  "get_path_depth e url =
     length (filter (\<lambda>segment. segment \<noteq> []) (split (path (urlparse e url)) CHR ''/''))"


section \<open>Link extraction\<close>

record args =
  \<comment> \<open>The parsed command line (\<open>args.url\<close> is \<open>url_arg\<close>, \<open>args.max\<close> is \<open>max_arg\<close>).\<close>
  url_arg :: string
  verbose :: bool
  threads :: int
  max_arg :: int
  depth :: int
  full_links :: bool

fun digit_char :: "nat \<Rightarrow> char" where
  "digit_char n = char_of (48 + n)"

function str_nat :: "nat \<Rightarrow> string" where
  "str_nat n = (if n < 10 then [digit_char n] else str_nat (n div 10) @ [digit_char (n mod 10)])"
  by pat_completeness auto
termination
  by (relation "measure id") auto

definition str_int :: "int \<Rightarrow> string" where
  \<comment> \<open>\<open>str(i)\<close> for a Python integer\<close>
  "str_int i = (if i < 0 then CHR ''-'' # str_nat (nat (- i)) else str_nat (nat i))"

definition find_all :: "html_tag list \<Rightarrow> string list \<Rightarrow> html_tag list" where
  \<comment> \<open>\<open>soup.find_all(names)\<close>: the tags whose name is one of \<open>names\<close>\<close>
  "find_all tags names = filter (\<lambda>tag. tag_name tag \<in> set names) tags"

type_synonym link_sets = "string set \<times> string set \<times> string set"

text \<open>
  The loop over the tags (lines 50 to 67). The accumulator is the triple
  \<open>(links, mailto_links, non_html_links)\<close>; \<open>tag.get(attr)\<close> is \<open>tag_attrs tag attr\<close>,
  and \<open>if not link: continue\<close> skips a missing attribute and an empty one.
\<close>

fun scan_tags :: "env \<Rightarrow> string \<Rightarrow> html_tag list \<Rightarrow> link_sets \<Rightarrow> link_sets" where
  "scan_tags e url [] acc = acc"
| "scan_tags e url (tag # tags) (links, mailto_links, non_html_links) =
     (let attr = (if tag_name tag \<in> set [''a'', ''link''] then ''href'' else ''src'') in
      case tag_attrs tag attr of
        None \<Rightarrow> scan_tags e url tags (links, mailto_links, non_html_links)
      | Some link \<Rightarrow>
          if link = [] then scan_tags e url tags (links, mailto_links, non_html_links)
          else if (startswith link ''SMS:'' \<or> startswith link ''tel:''
                   \<or> startswith link ''javascript:'' \<or> startswith link ''data:'')
                  \<or> startswith link ''#''
          then scan_tags e url tags (links, mailto_links, insert link non_html_links)
          else if startswith link ''mailto:''
          then scan_tags e url tags (links, insert link mailto_links, non_html_links)
          else scan_tags e url tags (insert (urljoin e url link) links, mailto_links, non_html_links))"

text \<open>
  \<open>extract_links\<close> returns its value, or the message of the exception that leaves it
  (\<open>Inl\<close>), together with the lines it printed.
\<close>

definition extract_links :: "args \<Rightarrow> env \<Rightarrow> nat \<Rightarrow> string \<Rightarrow> (string + link_sets) \<times> string list" where
  "extract_links a e k url =
     (case requests_get e k url of
        RequestException msg \<Rightarrow>
          (Inr ({}, {}, {}), [''Request failed for '' @ url @ '': '' @ msg])
      | OtherException msg \<Rightarrow> (Inl msg, [])
      | Response r \<Rightarrow>
          if \<not> (200 \<le> status_code r \<and> status_code r < 400)
          then (Inr ({}, {}, {}),
                if verbose a then [''Skipped '' @ url @ '': HTTP '' @ str_int (status_code r)] else [])
          else
            let content_type = (case content_type_header r of None \<Rightarrow> [] | Some c \<Rightarrow> c) in
            if \<not> contains content_type ''html''
            then (Inr ({}, {}, {}),
                  if verbose a
                  then [''Skipped '' @ url @ '': Non-HTML content type ('' @ content_type @ '')'']
                  else [])
            else (Inr (scan_tags e url
                         (find_all (html_parser e (text_body r)) [''a'', ''link'', ''script'', ''img''])
                         ({}, {}, {})), []))"

definition split_links :: "env \<Rightarrow> string \<Rightarrow> string set \<Rightarrow> string set \<times> string set" where
  "split_links e base_url links =
     (let base_host = get_hostname e base_url in
      (Set.filter (\<lambda>link. get_hostname e link = base_host) links,
       Set.filter (\<lambda>link. get_hostname e link \<noteq> base_host) links))"

section \<open>The crawl\<close>

record task_result =
  \<comment> \<open>The tuple \<open>process_url\<close> returns.\<close>
  current_url :: string
  internal :: "string set"
  external :: "string set"
  mailtos :: "string set"
  non_htmls :: "string set"

definition empty_result :: "string \<Rightarrow> task_result" where
  "empty_result url =
     \<lparr>current_url = url, internal = {}, external = {}, mailtos = {}, non_htmls = {}\<rparr>"

definition process_url :: "args \<Rightarrow> env \<Rightarrow> string \<Rightarrow> nat \<Rightarrow> string \<Rightarrow> task_result \<times> string list" where
  "process_url a e start_url k url =
     (if get_hostname e url \<noteq> get_hostname e start_url
      then (empty_result url,
            if verbose a then [''Skipped '' @ url @ '': external or subdomain''] else [])
      else
        (case extract_links a e k url of
           (Inl msg, printed) \<Rightarrow>
             (empty_result url,
              printed @ (if verbose a then [''Error crawling '' @ url @ '': '' @ msg] else []))
         | (Inr (links, mailto_links, non_html_links), printed) \<Rightarrow>
             (case split_links e start_url links of
                (internal_links, external_links) \<Rightarrow>
                  (\<lparr>current_url = url, internal = internal_links, external = external_links,
                    mailtos = mailto_links, non_htmls = non_html_links\<rparr>, printed))))"

record crawl_state =
  visited :: "string set"
  to_visit :: "string set"
  all_internal :: "string set"
  all_external :: "string set"
  mailto_links :: "string set"
  non_html_links :: "string set"
  is_done :: bool                \<comment> \<open>the variable \<open>done\<close>\<close>
  printed_lines :: "string list"  \<comment> \<open>what has been printed so far\<close>

definition initial_state :: "string \<Rightarrow> crawl_state" where
  "initial_state start_url =
     \<lparr>visited = {}, to_visit = {start_url}, all_internal = {}, all_external = {},
      mailto_links = {}, non_html_links = {}, is_done = False, printed_lines = []\<rparr>"

text \<open>
  Lines 140 to 143: the URL of the completed task is marked visited and the progress line
  is printed. The lines the task itself printed are placed before it.
\<close>

definition mark_visited :: "task_result \<times> string list \<Rightarrow> crawl_state \<Rightarrow> crawl_state" where
  "mark_visited rp s =
     (let v = insert (current_url (fst rp)) (visited s) in
      s\<lparr>visited := v,
        printed_lines := printed_lines s @ snd rp @ [''Crawled: '' @ str_nat (card v) @ '' URLs'']\<rparr>)"

definition max_reached :: "args \<Rightarrow> crawl_state \<Rightarrow> bool" where
  \<comment> \<open>\<open>args.max and len(visited) >= args.max\<close>\<close>
  "max_reached a s = (max_arg a \<noteq> 0 \<and> int (card (visited s)) \<ge> max_arg a)"

text \<open>
  Lines 152 to 160. The inner loop adds each internal link that is not visited, not queued
  and within the depth limit to \<open>to_visit\<close>; adding to a set is idempotent, so the loop
  computes the union below in whatever order the set is iterated.
\<close>

definition commit_links :: "args \<Rightarrow> env \<Rightarrow> task_result \<Rightarrow> crawl_state \<Rightarrow> crawl_state" where
  "commit_links a e r s =
     s\<lparr>to_visit := to_visit s \<union>
          Set.filter (\<lambda>link. link \<notin> visited s \<and> link \<notin> to_visit s
                         \<and> (depth a = 0 \<or> int (get_path_depth e link) \<le> depth a)) (internal r),
       all_internal := all_internal s \<union> internal r,
       all_external := all_external s \<union> external r,
       mailto_links := mailto_links s \<union> mailtos r,
       non_html_links := non_html_links s \<union> non_htmls r\<rparr>"

text \<open>
  The loop over \<open>as_completed(futures)\<close> (lines 138 to 160), over the results in completion
  order. At the \<open>break\<close> the remaining tasks of the batch still run to their end when the
  executor shuts down, so the lines they print are kept; their results are dropped.
\<close>

fun collect :: "args \<Rightarrow> env \<Rightarrow> (task_result \<times> string list) list \<Rightarrow> crawl_state \<Rightarrow> crawl_state" where
  "collect a e [] s = s"
| "collect a e (rp # rest) s =
     (let s1 = mark_visited rp s in
      if max_reached a s1
      then s1\<lparr>is_done := True,
              printed_lines := printed_lines s1
                @ (if verbose a
                   then [''Reached max limit of '' @ str_int (max_arg a) @ '' internal links.'']
                   else [])
                @ concat (map snd rest)\<rparr>
      else collect a e rest (commit_links a e (fst rp) s1))"

definition run_batch :: "args \<Rightarrow> env \<Rightarrow> string \<Rightarrow> nat \<Rightarrow> crawl_state \<Rightarrow> crawl_state" where
  \<comment> \<open>One iteration of the \<open>while\<close> loop (lines 133 to 160), for batch number \<open>k\<close>.\<close>
  "run_batch a e start_url k s =
     (let current_batch = to_visit s in
      collect a e (map (process_url a e start_url k) (as_completed e k current_batch))
        (s\<lparr>to_visit := {}\<rparr>))"

definition loop_continues :: "crawl_state \<Rightarrow> bool" where
  \<comment> \<open>\<open>to_visit and not done\<close>\<close>
  "loop_continues s = (to_visit s \<noteq> {} \<and> \<not> is_done s)"

partial_function (option) crawl_loop ::
    "args \<Rightarrow> env \<Rightarrow> string \<Rightarrow> nat \<Rightarrow> crawl_state \<Rightarrow> crawl_state option" where
  "crawl_loop a e start_url k s =
     (if loop_continues s then crawl_loop a e start_url (Suc k) (run_batch a e start_url k s)
      else Some s)"

declare crawl_loop.simps [code]

text \<open>
  The state at the head of the \<open>while\<close> loop before batch number \<open>n\<close>, when the loop gets
  that far: these are the states the loop reaches.
\<close>

fun loop_state :: "args \<Rightarrow> env \<Rightarrow> string \<Rightarrow> nat \<Rightarrow> crawl_state option" where
  "loop_state a e start_url 0 = Some (initial_state start_url)"
| "loop_state a e start_url (Suc n) =
     (case loop_state a e start_url n of
        None \<Rightarrow> None
      | Some s \<Rightarrow> if loop_continues s then Some (run_batch a e start_url n s) else None)"

datatype error = ValueError

definition crawl_run :: "args \<Rightarrow> env \<Rightarrow> string \<Rightarrow> int \<Rightarrow> (error + crawl_state) option" where
  \<comment> \<open>\<open>crawl_website\<close> up to its \<open>return\<close>: \<open>None\<close> when the loop never ends, the error when
      \<open>ThreadPoolExecutor\<close> rejects \<open>max_workers <= 0\<close>, the last state otherwise.\<close>
  "crawl_run a e start_url thread_count =
     (if thread_count \<le> 0 then Some (Inl ValueError)
      else map_option Inr (crawl_loop a e start_url 0 (initial_state start_url)))"

definition returned_sets :: "crawl_state \<Rightarrow> string set \<times> string set \<times> string set \<times> string set" where
  "returned_sets s = (all_internal s, all_external s, mailto_links s, non_html_links s)"

definition crawl_website ::
    "args \<Rightarrow> env \<Rightarrow> string \<Rightarrow> int
       \<Rightarrow> (error + string set \<times> string set \<times> string set \<times> string set) option" where
  "crawl_website a e start_url thread_count =
     map_option (map_sum id returned_sets) (crawl_run a e start_url thread_count)"

section \<open>Reporting\<close>

definition directory_url :: "env \<Rightarrow> string \<Rightarrow> string" where
  \<comment> \<open>The body of the loop of \<open>extract_directories\<close>; \<open>None\<close> is formatted as \<open>None\<close>.\<close>
  "directory_url e url =
     (let parsed = urlparse e url;
          p = path parsed;
          p' = (if \<not> endswith p ''/'' then (rsplit1 p CHR ''/'') ! 0 @ ''/'' else p)
      in scheme parsed @ ''://'' @ (case hostname parsed of None \<Rightarrow> ''None'' | Some h \<Rightarrow> h) @ p')"

definition extract_directories :: "env \<Rightarrow> string set \<Rightarrow> string set" where
  "extract_directories e links = directory_url e ` links"

definition listing :: "string \<Rightarrow> string set \<Rightarrow> string list" where
  \<comment> \<open>a count header and the sorted elements, one per line\<close>
  "listing what xs =
     ([CHR 0x0A] @ ''Found '' @ str_nat (card xs) @ '' '' @ what @ '':'') # sorted_list_of_set xs"

definition report ::
    "args \<Rightarrow> env \<Rightarrow> string set \<times> string set \<times> string set \<times> string set \<Rightarrow> string list" where
  \<comment> \<open>what the main block prints after the crawl (lines 184 to 212)\<close>
  "report a e sets =
     (case sets of (internal_links, external_links, mailto_set, non_html_set) \<Rightarrow>
        (if full_links a then listing ''internal links'' internal_links
         else listing ''internal directories'' (extract_directories e internal_links))
        @ (if full_links a then listing ''external links'' external_links
           else listing ''external directories'' (extract_directories e external_links))
        @ (if full_links a then listing ''email links'' mailto_set else [])
        @ (if full_links a then listing ''non-HTML links'' non_html_set else []))"

definition main :: "args \<Rightarrow> env \<Rightarrow> (error + string list) option" where
  \<comment> \<open>the lines the program prints, or the exception that ends it\<close>
  "main a e =
     map_option (map_sum id (\<lambda>s. printed_lines s @ report a e (returned_sets s)))
       (crawl_run a e (url_arg a) (threads a))"


section \<open>A concrete instance of the libraries\<close>

text \<open>
  For evaluating the program on concrete inputs: \<open>urlparse\<close> and \<open>urljoin\<close> on URLs of
  the form \<open>scheme://netloc/path?query#fragment\<close>. \<open>urlparse_basic\<close> follows
  \<open>urllib.parse.urlsplit\<close>: the scheme is the text before the first colon when that text
  is a letter followed by letters, digits, \<open>+\<close>, \<open>-\<close> or \<open>.\<close>; the network location follows
  \<open>//\<close> up to the next \<open>/\<close>, \<open>?\<close> or \<open>#\<close>; the host name is the network location without
  user information and port, in lower case, and \<open>None\<close> when empty; the path ends at the
  first \<open>?\<close> or \<open>#\<close>. Bracketed hosts, \<open>;\<close> parameters and the stripping of control
  characters are left out.
\<close>

definition is_alpha :: "char \<Rightarrow> bool" where
  "is_alpha c = (let n = (of_char c :: nat) in (65 \<le> n \<and> n \<le> 90) \<or> (97 \<le> n \<and> n \<le> 122))"

definition is_scheme_char :: "char \<Rightarrow> bool" where
  "is_scheme_char c =
     (let n = (of_char c :: nat) in is_alpha c \<or> (48 \<le> n \<and> n \<le> 57) \<or> c \<in> set ''+-.'')"

definition lower :: "string \<Rightarrow> string" where
  "lower s = map (\<lambda>c. let n = (of_char c :: nat) in if 65 \<le> n \<and> n \<le> 90 then char_of (n + 32) else c) s"

definition urlparse_basic :: "string \<Rightarrow> parsed_url" where
  "urlparse_basic url =
     (let pre = takeWhile (\<lambda>c. c \<noteq> CHR '':'') url;
          has_scheme = (CHR '':'' \<in> set url \<and> pre \<noteq> [] \<and> is_alpha (hd pre)
                        \<and> list_all is_scheme_char pre);
          rest = (if has_scheme then drop (Suc (length pre)) url else url);
          has_netloc = prefix ''//'' rest;
          netloc = (if has_netloc then takeWhile (\<lambda>c. c \<notin> set ''/?#'') (drop 2 rest) else []);
          rest2 = (if has_netloc then dropWhile (\<lambda>c. c \<notin> set ''/?#'') (drop 2 rest) else rest);
          hostinfo = rev (takeWhile (\<lambda>c. c \<noteq> CHR ''@'') (rev netloc));
          host = lower (takeWhile (\<lambda>c. c \<noteq> CHR '':'') hostinfo)
      in \<lparr>scheme = (if has_scheme then lower pre else []),
          hostname = (if host = [] then None else Some host),
          path = takeWhile (\<lambda>c. c \<notin> set ''?#'') rest2\<rparr>)"

text \<open>
  \<open>urljoin_basic\<close> resolves the two kinds of reference the examples contain: a reference
  with a scheme of its own is the result as it is, and a reference that starts with a
  single \<open>/\<close> replaces the path of the base. Any other reference is left as it is.
\<close>

definition urljoin_basic :: "string \<Rightarrow> string \<Rightarrow> string" where
  "urljoin_basic base link =
     (if scheme (urlparse_basic link) \<noteq> [] then link
      else if prefix ''/'' link \<and> \<not> prefix ''//'' link
      then (let pre = takeWhile (\<lambda>c. c \<noteq> CHR '':'') base;
                netloc = takeWhile (\<lambda>c. c \<notin> set ''/?#'') (drop (length pre + 3) base)
            in pre @ ''://'' @ netloc @ link)
      else link)"

definition anchor :: "string \<Rightarrow> html_tag" where
  \<comment> \<open>the tag \<open><a href="..."></a>\<close>\<close>
  "anchor href = \<lparr>tag_name = ''a'', tag_attrs = [''href'' \<mapsto> href]\<rparr>"

definition html_page :: "string \<Rightarrow> fetch_outcome" where
  \<comment> \<open>a 200 answer of type \<open>text/html\<close> with the given body\<close>
  "html_page body =
     Response \<lparr>status_code = 200, content_type_header = Some ''text/html'', text_body = body\<rparr>"

definition site_env ::
    "(string \<Rightarrow> fetch_outcome) \<Rightarrow> (string \<Rightarrow> html_tag list) \<Rightarrow> string list \<Rightarrow> env" where
  \<comment> \<open>a web that answers each URL the same way in every batch, a table from page bodies to
      their tags, and one completion order used for every batch\<close>
  "site_env web tags_of order =
     \<lparr>urlparse = urlparse_basic, urljoin = urljoin_basic, requests_get = (\<lambda>k. web),
      html_parser = tags_of, completion_order = (\<lambda>k. order)\<rparr>"

definition offline_env :: env where
  "offline_env = site_env (\<lambda>url. RequestException ''offline'') (\<lambda>body. []) []"


section \<open>Example inputs\<close>

definition default_args :: "string \<Rightarrow> args" where
  \<comment> \<open>the command line with only the URL given\<close>
  "default_args start_url =
     \<lparr>url_arg = start_url, verbose = False, threads = 1, max_arg = 0, depth = 0, full_links = False\<rparr>"

text \<open>
  A site whose home page holds the four references of scenario A and a deep link; its
  \<open>/about\<close> page answers 404; nothing else answers.
\<close>

definition example_web :: "string \<Rightarrow> fetch_outcome" where
  "example_web u =
     (if u = ''https://example.com/'' then html_page ''home''
      else if u = ''https://example.com/about''
      then Response \<lparr>status_code = 404, content_type_header = Some ''text/html'', text_body = []\<rparr>
      else RequestException ''unreachable'')"

definition example_tags :: "string \<Rightarrow> html_tag list" where
  "example_tags body =
     (if body = ''home''
      then [anchor ''/about'', anchor ''https://other.com'', anchor ''mailto:x@y.com'',
            anchor ''#top'', anchor ''/a/b/c'']
      else [])"

definition example_env :: env where
  "example_env = site_env example_web example_tags []"

text \<open>A page that holds one \<open>sms:\<close> reference and one \<open>tel:\<close> reference.\<close>

definition contact_env :: env where
  "contact_env =
     site_env (\<lambda>u. html_page ''contact'')
       (\<lambda>body. [anchor ''sms:+15551234'', anchor ''tel:+15551234'']) []"

text \<open>
  A site of three pages: the home page links to \<open>/a\<close> and \<open>/b\<close>, page \<open>/a\<close> links to \<open>/b\<close>,
  and page \<open>/b\<close> has no links. The task for \<open>/a\<close> completes before the task for \<open>/b\<close>.
\<close>

definition triangle_web :: "string \<Rightarrow> fetch_outcome" where
  "triangle_web u =
     (if u = ''https://s.org/'' then html_page ''home''
      else if u = ''https://s.org/a'' then html_page ''a''
      else if u = ''https://s.org/b'' then html_page ''b''
      else RequestException ''unreachable'')"

definition triangle_tags :: "string \<Rightarrow> html_tag list" where
  "triangle_tags body =
     (if body = ''home'' then [anchor ''/a'', anchor ''/b'']
      else if body = ''a'' then [anchor ''/b'']
      else [])"

definition triangle_env :: env where
  "triangle_env = site_env triangle_web triangle_tags [''https://s.org/a'', ''https://s.org/b'']"

definition limited_args :: "string \<Rightarrow> int \<Rightarrow> args" where
  \<comment> \<open>the command line with the URL and \<open>-m\<close>\<close>
  "limited_args start_url m = (default_args start_url)\<lparr>max_arg := m\<rparr>"



text \<open>
  The site \<open>www.w3.org\<close>, whose home page links to the site \<open>3.org\<close>; the home page of
  \<open>3.org\<close> holds a \<open>mailto:\<close> reference.
\<close>

definition w3_web :: "string \<Rightarrow> fetch_outcome" where
  "w3_web u =
     (if u = ''https://www.w3.org/'' then html_page ''w3''
      else if u = ''https://3.org/'' then html_page ''other''
      else RequestException ''unreachable'')"

definition w3_tags :: "string \<Rightarrow> html_tag list" where
  "w3_tags body =
     (if body = ''w3'' then [anchor ''https://3.org/'']
      else if body = ''other'' then [anchor ''mailto:owner@3.org'']
      else [])"

definition w3_env :: env where
  "w3_env = site_env w3_web w3_tags []"

definition home :: string where
  "home = ''https://example.com/''"



definition batch_start :: "string \<Rightarrow> crawl_state" where
  \<comment> \<open>the state in which the first batch awaits its completions\<close>
  "batch_start start_url = (initial_state start_url)\<lparr>to_visit := {}\<rparr>"

section \<open>Predicates and measures used in the statements\<close>

definition frontier_overlap :: "crawl_state \<Rightarrow> string set" where
  \<comment> \<open>the queued URLs that are already marked visited\<close>
  "frontier_overlap s = to_visit s \<inter> visited s"


text \<open>
  With a limit \<open>-m\<close> the loop keeps the number of visited URLs below the limit until it
  stops, and it stops with exactly that number.
\<close>

definition count_ok :: "args \<Rightarrow> crawl_state \<Rightarrow> bool" where
  "count_ok a s =
     (finite (visited s) \<and> finite (to_visit s)
      \<and> (if is_done s then int (card (visited s)) = max_arg a
         else int (card (visited s)) < max_arg a))"

text \<open>
  A bound on the number of batches still to run. A batch whose URLs are all visited
  already adds nothing to \<open>visited\<close>, but then every URL it queues is unvisited, so the
  batch after it adds one: two batches for each URL that may still be visited.
\<close>

definition batches_left :: "args \<Rightarrow> crawl_state \<Rightarrow> nat" where
  "batches_left a s =
     2 * nat (max_arg a - int (card (visited s))) + (if to_visit s \<subseteq> visited s then 1 else 0)"

text \<open>The state of the crawl without the printed lines.\<close>

definition crawl_core ::
    "crawl_state \<Rightarrow> (string set \<times> string set) \<times> (string set \<times> string set \<times> string set \<times> string set) \<times> bool" where
  "crawl_core s = ((visited s, to_visit s), returned_sets s, is_done s)"

section \<open>Host names\<close>

text \<open>
  Claim C1 (host name normalisation strips exactly the literal prefix \<open>www.\<close>).
  The program calls \<open>lstrip("www.")\<close>, which removes every leading \<open>w\<close> and \<open>.\<close>. For
  \<open>https://www.w3.org/\<close> the extracted host name is \<open>www.w3.org\<close>; removing the literal
  prefix would leave \<open>w3.org\<close>, the program returns \<open>3.org\<close>.
\<close>

theorem get_hostname_strips_characters:
  "hostname (urlparse offline_env ''https://www.w3.org/'') = Some ''www.w3.org''
   \<and> get_hostname offline_env ''https://www.w3.org/'' = ''3.org''"
  by code_simp

text \<open>
  The other two cases are as the specification has them: a host name without the prefix is
  returned as it is, and a URL without host name gives the empty string.
\<close>

lemma get_hostname_without_www:
  "hostname (urlparse e u) = Some h \<Longrightarrow> \<not> startswith h ''www.'' \<Longrightarrow> get_hostname e u = h"
  by (simp add: get_hostname_def)

lemma get_hostname_no_host: "hostname (urlparse e u) = None \<Longrightarrow> get_hostname e u = []"
  by (simp add: get_hostname_def startswith_def)

section \<open>Properties of link extraction\<close>

text \<open>
  Claim C3 (references with the prefixes \<open>sms:\<close>, \<open>tel:\<close>, \<open>javascript:\<close>, \<open>data:\<close> and
  \<open>#\<close> go to the non-crawlable set and are never resolved). The program tests for the
  prefix \<open>SMS:\<close> in capitals, so on a page with the references \<open>sms:+15551234\<close> and
  \<open>tel:+15551234\<close> the second one is set aside as claimed, and the first one is resolved
  with \<open>urljoin\<close> and returned among the raw links.
\<close>

theorem extract_links_resolves_sms_link:
  "extract_links (default_args []) contact_env 0 ''https://example.com/''
     = (Inr ({''sms:+15551234''}, {}, {''tel:+15551234''}), [])"
  by code_simp

text \<open>
  A reference with one of the other four prefixes is put into \<open>non_html_links\<close> as it is,
  and \<open>urljoin\<close> is not applied to it.
\<close>

lemma scan_tags_sets_aside:
  assumes "tag_attrs tag (if tag_name tag \<in> set [''a'', ''link''] then ''href'' else ''src'') = Some link"
    and "startswith link ''tel:'' \<or> startswith link ''javascript:'' \<or> startswith link ''data:''
         \<or> startswith link ''#''"
  shows "scan_tags e u (tag # tags) (links, ms, ns) = scan_tags e u tags (links, ms, insert link ns)"
proof -
  have "link \<noteq> []" using assms(2) by (auto simp: startswith_def)
  with assms show ?thesis by (simp add: Let_def)
qed

text \<open>The sets a task returns are finite, and its internal links are on the host of the seed.\<close>

lemma current_url_process_url [simp]: "current_url (fst (process_url a e st k u)) = u"
  by (auto simp: process_url_def empty_result_def split: prod.splits sum.splits)

lemma finite_scan_tags:
  "finite (fst acc) \<Longrightarrow> finite (fst (scan_tags e u tags acc))"
proof (induction e u tags acc rule: scan_tags.induct)
  case (1 e url acc)
  then show ?case by simp
next
  case (2 e url tag tags links mailto_links non_html_links)
  then show ?case by (auto simp: Let_def split: option.splits)
qed

lemma finite_scan_tags_links:
  "scan_tags e u tags ({}, {}, {}) = (links, ms, ns) \<Longrightarrow> finite links"
  using finite_scan_tags [of "({}, {}, {})" e u tags] by simp

lemma finite_extract_links:
  "extract_links a e k u = (Inr (links, ms, ns), pr) \<Longrightarrow> finite links"
  by (auto simp: extract_links_def Let_def split: fetch_outcome.splits if_splits
      dest: finite_scan_tags_links)

lemma finite_internal_process_url: "finite (internal (fst (process_url a e st k u)))"
  by (auto simp: process_url_def empty_result_def split_links_def Let_def
      split: prod.splits sum.splits dest: finite_extract_links)

lemma internal_process_url_host:
  "l \<in> internal (fst (process_url a e st k u)) \<Longrightarrow> get_hostname e l = get_hostname e st"
  by (auto simp: process_url_def empty_result_def split_links_def Let_def
      split: prod.splits sum.splits if_splits)

section \<open>Completion order\<close>

lemma as_completed_set: "finite B \<Longrightarrow> set (as_completed e k B) = B"
  by (auto simp: as_completed_def)

lemma as_completed_distinct: "distinct (as_completed e k B)"
  by (cases "finite (B - set (completion_order e k))") (auto simp: as_completed_def)

lemma as_completed_any_order:
  "distinct xs \<Longrightarrow> set xs = B \<Longrightarrow> completion_order e k = xs \<Longrightarrow> as_completed e k B = xs"
  by (auto simp: as_completed_def)

section \<open>Committing the results of a batch\<close>

lemma visited_commit_links [simp]: "visited (commit_links a e r s) = visited s"
  by (simp add: commit_links_def)

lemma is_done_commit_links [simp]: "is_done (commit_links a e r s) = is_done s"
  by (simp add: commit_links_def)

lemma visited_mark_visited [simp]:
  "visited (mark_visited rp s) = insert (current_url (fst rp)) (visited s)"
  by (simp add: mark_visited_def Let_def)

lemma to_visit_mark_visited [simp]: "to_visit (mark_visited rp s) = to_visit s"
  by (simp add: mark_visited_def Let_def)

lemma is_done_mark_visited [simp]: "is_done (mark_visited rp s) = is_done s"
  by (simp add: mark_visited_def Let_def)

lemma accumulators_mark_visited [simp]:
  "all_internal (mark_visited rp s) = all_internal s"
  "all_external (mark_visited rp s) = all_external s"
  "mailto_links (mark_visited rp s) = mailto_links s"
  "non_html_links (mark_visited rp s) = non_html_links s"
  by (simp_all add: mark_visited_def Let_def)

lemma to_visit_commit_links:
  "to_visit (commit_links a e r s) =
     to_visit s \<union> {link \<in> internal r. link \<notin> visited s
                      \<and> (depth a = 0 \<or> int (get_path_depth e link) \<le> depth a)}"
  by (auto simp: commit_links_def)


lemma collect_finite_visited: "finite (visited s) \<Longrightarrow> finite (visited (collect a e rs s))"
  by (induction rs arbitrary: s) (auto simp: Let_def)

lemma collect_finite_to_visit:
  "finite (to_visit s) \<Longrightarrow> \<forall>rp \<in> set rs. finite (internal (fst rp))
     \<Longrightarrow> finite (to_visit (collect a e rs s))"
  by (induction rs arbitrary: s) (auto simp: Let_def to_visit_commit_links)

lemma collect_keeps_done: "is_done s \<Longrightarrow> is_done (collect a e rs s)"
  by (induction rs arbitrary: s) (auto simp: Let_def)

lemma collect_visited_not_done:
  "\<not> is_done (collect a e rs s)
     \<Longrightarrow> visited (collect a e rs s) = visited s \<union> (current_url \<circ> fst) ` set rs"
  by (induction rs arbitrary: s) (auto simp: Let_def split: if_splits)

lemma collect_frontier_fresh:
  "to_visit (collect a e rs s) \<subseteq> to_visit s \<union> - visited s"
proof (induction rs arbitrary: s)
  case Nil
  show ?case by simp
next
  case (Cons rp rs)
  let ?s2 = "commit_links a e (fst rp) (mark_visited rp s)"
  have "to_visit (collect a e rs ?s2) \<subseteq> to_visit ?s2 \<union> - visited ?s2" by (rule Cons.IH)
  moreover have "to_visit ?s2 \<union> - visited ?s2 \<subseteq> to_visit s \<union> - visited s"
    by (auto simp: to_visit_commit_links)
  ultimately show ?case by (auto simp: Let_def)
qed


lemma collect_frontier_internal:
  "to_visit (collect a e rs s) \<subseteq> to_visit s \<union> (\<Union>rp \<in> set rs. internal (fst rp))"
proof (induction rs arbitrary: s)
  case Nil
  show ?case by simp
next
  case (Cons rp rs)
  let ?s2 = "commit_links a e (fst rp) (mark_visited rp s)"
  have "to_visit (collect a e rs ?s2) \<subseteq> to_visit ?s2 \<union> (\<Union>rp \<in> set rs. internal (fst rp))"
    by (rule Cons.IH)
  moreover have "to_visit ?s2 \<subseteq> to_visit s \<union> internal (fst rp)"
    by (auto simp: to_visit_commit_links)
  ultimately show ?case by (auto simp: Let_def)
qed

lemma collect_count:
  assumes "finite (visited s)" "\<not> is_done s" "int (card (visited s)) < max_arg a"
  shows "finite (visited (collect a e rs s))
         \<and> (if is_done (collect a e rs s) then int (card (visited (collect a e rs s))) = max_arg a
            else int (card (visited (collect a e rs s))) < max_arg a)"
  using assms
proof (induction rs arbitrary: s)
  case Nil
  then show ?case by simp
next
  case (Cons rp rs)
  let ?s1 = "mark_visited rp s"
  have fin: "finite (visited ?s1)" using Cons.prems by simp
  have le: "int (card (visited ?s1)) \<le> max_arg a"
    using Cons.prems by (simp add: card_insert_if)
  show ?case
  proof (cases "max_reached a ?s1")
    case True
    then have "int (card (visited ?s1)) = max_arg a" using le by (simp add: max_reached_def)
    with True fin show ?thesis by (simp add: Let_def)
  next
    case False
    then have lt: "int (card (visited ?s1)) < max_arg a"
      using le Cons.prems by (auto simp: max_reached_def)
    let ?s2 = "commit_links a e (fst rp) ?s1"
    have "finite (visited ?s2)" "\<not> is_done ?s2" "int (card (visited ?s2)) < max_arg a"
      using fin lt Cons.prems by simp_all
    from Cons.IH [OF this] False show ?thesis by (simp add: Let_def)
  qed
qed

lemma crawl_loop_stopped: "\<not> loop_continues s \<Longrightarrow> crawl_loop a e st k s = Some s"
  by (subst crawl_loop.simps) simp

section \<open>The stop at the limit\<close>

text \<open>
  Claim C2, as stated: when marking a URL visited reaches the limit, the link sets and the
  frontier additions of that task are still committed. With \<open>-m 1\<close> the home page of the
  example site is fetched and yields two internal links, and the crawl returns four empty
  sets: the \<open>break\<close> comes before the lines that commit.
\<close>

theorem max_stop_commits_nothing_example:
  "internal (fst (process_url (limited_args home 1) example_env home 0 home))
     = {''https://example.com/about'', ''https://example.com/a/b/c''}
   \<and> crawl_website (limited_args home 1) example_env home 1 = Some (Inr ({}, {}, {}, {}))"
  by code_simp

text \<open>
  Claim C2, amended: when \<open>maxVisited > 0\<close> and marking the URL of a completed task visited
  makes \<open>|visited| >= maxVisited\<close>, the loop over the completions stops with \<open>done\<close> set
  and the crawl loop returns that state; the URL is marked visited, and the frontier and the
  four accumulators are what they were before the task completed.
\<close>

theorem max_stop_discards_triggering_result:
  assumes "0 < max_arg a"
    and "max_arg a \<le> int (card (insert (current_url (fst rp)) (visited s)))"
  shows "is_done (collect a e (rp # rest) s)
     \<and> visited (collect a e (rp # rest) s) = insert (current_url (fst rp)) (visited s)
     \<and> to_visit (collect a e (rp # rest) s) = to_visit s
     \<and> all_internal (collect a e (rp # rest) s) = all_internal s
     \<and> all_external (collect a e (rp # rest) s) = all_external s
     \<and> mailto_links (collect a e (rp # rest) s) = mailto_links s
     \<and> non_html_links (collect a e (rp # rest) s) = non_html_links s
     \<and> crawl_loop a e st k (collect a e (rp # rest) s) = Some (collect a e (rp # rest) s)"
proof -
  have m: "max_reached a (mark_visited rp s)"
    using assms by (simp add: max_reached_def)
  then have d: "is_done (collect a e (rp # rest) s)" by (simp add: Let_def)
  then have "\<not> loop_continues (collect a e (rp # rest) s)" by (simp add: loop_continues_def)
  then have "crawl_loop a e st k (collect a e (rp # rest) s) = Some (collect a e (rp # rest) s)"
    by (rule crawl_loop_stopped)
  with m show ?thesis by (simp add: Let_def)
qed

theorem max_stop_discards_triggering_result_witness:
  "0 < max_arg (limited_args home 1)
   \<and> max_arg (limited_args home 1)
       \<le> int (card (insert (current_url (fst (process_url (limited_args home 1) example_env home 0 home)))
                        (visited (batch_start home))))
   \<and> internal (fst (process_url (limited_args home 1) example_env home 0 home))
       = {''https://example.com/about'', ''https://example.com/a/b/c''}
   \<and> is_done (collect (limited_args home 1) example_env
         [process_url (limited_args home 1) example_env home 0 home] (batch_start home))
   \<and> all_internal (collect (limited_args home 1) example_env
         [process_url (limited_args home 1) example_env home 0 home] (batch_start home)) = {}
   \<and> to_visit (collect (limited_args home 1) example_env
         [process_url (limited_args home 1) example_env home 0 home] (batch_start home)) = {}"
proof -
  let ?a = "limited_args home 1"
  let ?rp = "process_url ?a example_env home 0 home"
  have h1: "0 < max_arg ?a" by (simp add: limited_args_def default_args_def)
  have h2: "max_arg ?a \<le> int (card (insert (current_url (fst ?rp)) (visited (batch_start home))))"
    by (simp add: limited_args_def default_args_def batch_start_def initial_state_def)
  have i: "internal (fst ?rp) = {''https://example.com/about'', ''https://example.com/a/b/c''}"
    by code_simp
  from max_stop_discards_triggering_result [OF h1 h2, of example_env "[]" home 0] h1 h2 i show ?thesis
    by (simp add: batch_start_def initial_state_def)
qed

section \<open>Termination under a limit\<close>

lemma batch_urls:
  "finite B \<Longrightarrow> (current_url \<circ> fst) ` set (map (process_url a e st k) (as_completed e k B)) = B"
  by (simp add: image_image as_completed_set)

lemma run_batch_count_ok:
  assumes "count_ok a s" "\<not> is_done s"
  shows "count_ok a (run_batch a e st k s)"
proof -
  let ?s0 = "s\<lparr>to_visit := {}\<rparr>"
  let ?rs = "map (process_url a e st k) (as_completed e k (to_visit s))"
  have "finite (visited ?s0)" "\<not> is_done ?s0" "int (card (visited ?s0)) < max_arg a"
    using assms by (simp_all add: count_ok_def)
  from collect_count [OF this, of e ?rs]
  have c: "finite (visited (collect a e ?rs ?s0))"
    "if is_done (collect a e ?rs ?s0) then int (card (visited (collect a e ?rs ?s0))) = max_arg a
     else int (card (visited (collect a e ?rs ?s0))) < max_arg a"
    by simp_all
  have "finite (to_visit (collect a e ?rs ?s0))"
    by (rule collect_finite_to_visit) (auto simp: finite_internal_process_url)
  with c show ?thesis by (simp add: count_ok_def run_batch_def Let_def)
qed

lemma run_batch_visited:
  assumes "finite (to_visit s)" "\<not> is_done (run_batch a e st k s)"
  shows "visited (run_batch a e st k s) = visited s \<union> to_visit s"
proof -
  let ?s0 = "s\<lparr>to_visit := {}\<rparr>"
  let ?rs = "map (process_url a e st k) (as_completed e k (to_visit s))"
  have "\<not> is_done (collect a e ?rs ?s0)" using assms(2) by (simp add: run_batch_def Let_def)
  from collect_visited_not_done [OF this]
  have "visited (collect a e ?rs ?s0) = visited s \<union> (current_url \<circ> fst) ` set ?rs" by simp
  also have "(current_url \<circ> fst) ` set ?rs = to_visit s" by (rule batch_urls [OF assms(1)])
  finally show ?thesis by (simp add: run_batch_def Let_def)
qed

lemma run_batch_frontier_fresh: "to_visit (run_batch a e st k s) \<inter> visited s = {}"
  using collect_frontier_fresh
    [of a e "map (process_url a e st k) (as_completed e k (to_visit s))" "s\<lparr>to_visit := {}\<rparr>"]
  by (auto simp: run_batch_def Let_def)

lemma run_batch_decreases:
  assumes ok: "count_ok a s" and go: "loop_continues s"
    and go': "loop_continues (run_batch a e st k s)"
  shows "batches_left a (run_batch a e st k s) < batches_left a s"
proof -
  let ?s' = "run_batch a e st k s"
  have nd: "\<not> is_done s" "\<not> is_done ?s'" and ne: "to_visit ?s' \<noteq> {}"
    using go go' by (simp_all add: loop_continues_def)
  have ok': "count_ok a ?s'" by (rule run_batch_count_ok [OF ok nd(1)])
  have fin: "finite (visited s)" "finite (to_visit s)" using ok by (simp_all add: count_ok_def)
  have v: "visited ?s' = visited s \<union> to_visit s" by (rule run_batch_visited [OF fin(2) nd(2)])
  have lt': "int (card (visited ?s')) < max_arg a" using ok' nd(2) by (simp add: count_ok_def)
  have fresh: "to_visit ?s' \<inter> visited s = {}" by (rule run_batch_frontier_fresh)
  show ?thesis
  proof (cases "to_visit s \<subseteq> visited s")
    case True
    then have same: "visited ?s' = visited s" using v by auto
    have "\<not> to_visit ?s' \<subseteq> visited ?s'" using fresh ne same by auto
    with True same show ?thesis by (simp add: batches_left_def)
  next
    case False
    have "visited s \<subset> visited ?s'" using False v by auto
    then have "card (visited s) < card (visited ?s')"
      using fin v by (intro psubset_card_mono) auto
    with lt' False show ?thesis by (auto simp: batches_left_def)
  qed
qed

lemma crawl_loop_terminates:
  assumes "count_ok a s"
  shows "\<exists>r. crawl_loop a e st k s = Some r \<and> count_ok a r \<and> \<not> loop_continues r"
  using assms
proof (induction "batches_left a s" arbitrary: s k rule: less_induct)
  case less
  show ?case
  proof (cases "loop_continues s")
    case False
    with less.prems show ?thesis by (subst crawl_loop.simps) simp
  next
    case True
    let ?s' = "run_batch a e st k s"
    have nd: "\<not> is_done s" using True by (simp add: loop_continues_def)
    have ok': "count_ok a ?s'" by (rule run_batch_count_ok [OF less.prems nd])
    have step: "crawl_loop a e st k s = crawl_loop a e st (Suc k) ?s'"
      using True by (subst crawl_loop.simps) simp
    show ?thesis
    proof (cases "loop_continues ?s'")
      case False
      then have "crawl_loop a e st (Suc k) ?s' = Some ?s'" by (subst crawl_loop.simps) simp
      with step ok' False show ?thesis by simp
    next
      case go': True
      have "batches_left a ?s' < batches_left a s"
        by (rule run_batch_decreases [OF less.prems True go'])
      from less.hyps [OF this ok', of "Suc k"] step show ?thesis by simp
    qed
  qed
qed

text \<open>
  Claim C4, as stated: with \<open>maxVisited = M > 0\<close> the crawl ends with \<open>|visited| >= M\<close>.
  With \<open>-m 5\<close> and a seed that cannot be fetched the frontier is empty after the first
  batch, and the crawl ends with one visited URL.
\<close>

theorem crawl_ends_below_max_example:
  "map_option (map_sum id (card \<circ> visited)) (crawl_run (limited_args home 5) offline_env home 1)
     = Some (Inr 1)"
  by code_simp

text \<open>
  Claim C4, amended: if \<open>maxVisited = M > 0\<close> then every crawl terminates, whatever the
  pages answer and in whatever order the tasks complete, and at termination
  \<open>|visited| <= M\<close> (so \<open>|visited| < M +\<close> the width of the last batch); \<open>|visited| = M\<close>
  when the limit stopped the crawl, and otherwise the frontier is empty and
  \<open>|visited| < M\<close>. A thread count below one ends the run with an exception before the
  first batch.
\<close>

theorem crawl_terminates_within_max:
  assumes "0 < max_arg a"
  shows "\<exists>r. crawl_run a e start_url thread_count = Some r \<and>
           (case r of
              Inl err \<Rightarrow> thread_count \<le> 0
            | Inr s \<Rightarrow> int (card (visited s)) \<le> max_arg a
                       \<and> (is_done s \<longrightarrow> int (card (visited s)) = max_arg a)
                       \<and> (\<not> is_done s \<longrightarrow> to_visit s = {} \<and> int (card (visited s)) < max_arg a))"
proof (cases "thread_count \<le> 0")
  case True
  then show ?thesis by (simp add: crawl_run_def)
next
  case False
  have "count_ok a (initial_state start_url)"
    using assms by (simp add: count_ok_def initial_state_def)
  from crawl_loop_terminates [OF this, of e start_url 0]
  obtain r where r: "crawl_loop a e start_url 0 (initial_state start_url) = Some r"
    "count_ok a r" "\<not> loop_continues r" by blast
  then show ?thesis using False
    by (auto simp: crawl_run_def count_ok_def loop_continues_def split: if_splits)
qed

theorem crawl_terminates_within_max_witness:
  "0 < max_arg (limited_args home 2)
   \<and> (\<exists>r. crawl_run (limited_args home 2) example_env home 1 = Some r \<and>
           (case r of
              Inl err \<Rightarrow> (1::int) \<le> 0
            | Inr s \<Rightarrow> int (card (visited s)) \<le> max_arg (limited_args home 2)
                       \<and> (is_done s \<longrightarrow> int (card (visited s)) = max_arg (limited_args home 2))
                       \<and> (\<not> is_done s \<longrightarrow> to_visit s = {}
                             \<and> int (card (visited s)) < max_arg (limited_args home 2))))
   \<and> map_option (map_sum id (card \<circ> visited)) (crawl_run (limited_args home 2) example_env home 1)
       = Some (Inr 2)"
proof -
  have h: "0 < max_arg (limited_args home 2)" by (simp add: limited_args_def default_args_def)
  have c: "map_option (map_sum id (card \<circ> visited)) (crawl_run (limited_args home 2) example_env home 1)
       = Some (Inr 2)" by code_simp
  from crawl_terminates_within_max [OF h, of example_env home 1] h c show ?thesis by blast
qed

section \<open>The frontier and the visited set\<close>

text \<open>
  Claim C5 (the frontier never holds a visited URL, and no URL is queued in two batches).
  On the three-page site the second batch is \<open>{/a, /b}\<close>. The task for \<open>/a\<close> completes
  first; its link \<open>/b\<close> is neither visited yet nor in the cleared \<open>to_visit\<close>, so it is queued.
  Then \<open>/b\<close> completes and is marked visited. At the head of the loop before the third batch
  the frontier is \<open>{/b}\<close>, a URL that is visited and that is fetched a second time.
\<close>

theorem frontier_requeues_url_of_running_batch:
  "map_option to_visit (loop_state (default_args ''https://s.org/'') triangle_env ''https://s.org/'' 1)
     = Some {''https://s.org/a'', ''https://s.org/b''}
   \<and> map_option to_visit (loop_state (default_args ''https://s.org/'') triangle_env ''https://s.org/'' 2)
     = Some {''https://s.org/b''}
   \<and> map_option frontier_overlap
        (loop_state (default_args ''https://s.org/'') triangle_env ''https://s.org/'' 2)
     = Some {''https://s.org/b''}"
  by code_simp

section \<open>Directories\<close>

lemma rsplit1_parts:
  assumes "sep \<in> set s"
  shows "s = rsplit1 s sep ! 0 @ [sep] @ rsplit1 s sep ! 1 \<and> sep \<notin> set (rsplit1 s sep ! 1)"
proof -
  let ?tw = "takeWhile (\<lambda>c. c \<noteq> sep) (rev s)"
  let ?dw = "dropWhile (\<lambda>c. c \<noteq> sep) (rev s)"
  have ne: "?dw \<noteq> []" using assms by (auto simp: dropWhile_eq_Nil_conv)
  then have "hd ?dw = sep" using hd_dropWhile [of "\<lambda>c. c \<noteq> sep" "rev s"] by auto
  with ne have dw: "?dw = sep # tl ?dw" by (cases ?dw) auto
  have "rev s = ?tw @ ?dw" by simp
  then have "rev s = ?tw @ sep # tl ?dw" using dw by simp
  then have "rev (rev s) = rev (?tw @ sep # tl ?dw)" by (rule arg_cong)
  then have "s = rev (tl ?dw) @ [sep] @ rev ?tw" by simp
  moreover have "sep \<notin> set (rev ?tw)" by (auto dest: set_takeWhileD)
  ultimately show ?thesis using assms by (simp add: rsplit1_def)
qed

lemma rsplit1_no_sep: "sep \<notin> set s \<Longrightarrow> rsplit1 s sep ! 0 = s"
  by (simp add: rsplit1_def)

text \<open>
  Claim C6, as stated: a link whose path ends in \<open>/\<close> is returned unchanged. The result is
  built from the scheme, the host name and the path only, so the link
  \<open>https://x.com/a/?q=1\<close>, whose path \<open>/a/\<close> ends in \<open>/\<close>, becomes \<open>https://x.com/a/\<close>.
\<close>

theorem extract_directories_drops_query_example:
  "endswith (path (urlparse offline_env ''https://x.com/a/?q=1'')) ''/''
   \<and> extract_directories offline_env {''https://x.com/a/?q=1''} = {''https://x.com/a/''}
   \<and> ''https://x.com/a/'' \<noteq> ''https://x.com/a/?q=1''"
  by code_simp

text \<open>
  Claim C6, amended: for every link that parses to a scheme, a host name and a path, the
  result of \<open>toDirectories\<close> holds the scheme, \<open>://\<close>, the host name and a directory path
  (port, user information, query and fragment are dropped): the path itself when it ends
  in \<open>/\<close>, and otherwise, when the path contains a \<open>/\<close>, the path cut after its last \<open>/\<close>.
  Every element of the result comes from a link of the input in this way, so
  \<open>https://x.com/a/b\<close> and \<open>https://x.com/a/c\<close> both give \<open>https://x.com/a/\<close>.
\<close>

theorem directory_url_keeps_directory:
  assumes "urlparse e link = \<lparr>scheme = sch, hostname = Some h, path = p\<rparr>"
  shows "(endswith p ''/'' \<longrightarrow> directory_url e link = sch @ ''://'' @ h @ p)
     \<and> (\<not> endswith p ''/'' \<and> CHR ''/'' \<in> set p \<longrightarrow>
          (\<exists>dir seg. p = dir @ seg \<and> seg \<noteq> [] \<and> CHR ''/'' \<notin> set seg \<and> endswith dir ''/''
             \<and> directory_url e link = sch @ ''://'' @ h @ dir))
     \<and> (link \<in> links \<longrightarrow> directory_url e link \<in> extract_directories e links)
     \<and> (\<forall>d \<in> extract_directories e links. \<exists>l \<in> links. d = directory_url e l)"
proof -
  have a: "endswith p ''/'' \<longrightarrow> directory_url e link = sch @ ''://'' @ h @ p"
    using assms by (simp add: directory_url_def Let_def)
  have b: "\<not> endswith p ''/'' \<and> CHR ''/'' \<in> set p \<longrightarrow>
          (\<exists>dir seg. p = dir @ seg \<and> seg \<noteq> [] \<and> CHR ''/'' \<notin> set seg \<and> endswith dir ''/''
             \<and> directory_url e link = sch @ ''://'' @ h @ dir)"
  proof
    assume h: "\<not> endswith p ''/'' \<and> CHR ''/'' \<in> set p"
    let ?d = "rsplit1 p CHR ''/'' ! 0 @ ''/''"
    let ?g = "rsplit1 p CHR ''/'' ! 1"
    from h rsplit1_parts [of "CHR ''/''" p]
    have p: "p = ?d @ ?g" and g: "CHR ''/'' \<notin> set ?g" by simp_all
    have "?g \<noteq> []"
    proof
      assume "?g = []"
      with p have "p = ?d" by simp
      then have "suffix ''/'' p" by (metis suffixI)
      with h show False by (simp add: endswith_def)
    qed
    moreover have "endswith ?d ''/''" by (simp add: endswith_def suffix_def)
    moreover have "directory_url e link = sch @ ''://'' @ h @ ?d"
      using assms h by (simp add: directory_url_def Let_def)
    ultimately show "\<exists>dir seg. p = dir @ seg \<and> seg \<noteq> [] \<and> CHR ''/'' \<notin> set seg \<and> endswith dir ''/''
             \<and> directory_url e link = sch @ ''://'' @ h @ dir"
      using p g by blast
  qed
  have c: "link \<in> links \<longrightarrow> directory_url e link \<in> extract_directories e links"
    "\<forall>d \<in> extract_directories e links. \<exists>l \<in> links. d = directory_url e l"
    by (auto simp: extract_directories_def)
  from a b c show ?thesis by blast
qed

theorem directory_url_keeps_directory_witness:
  "urlparse offline_env ''https://x.com/a/b'' = \<lparr>scheme = ''https'', hostname = Some ''x.com'', path = ''/a/b''\<rparr>
   \<and> \<not> endswith ''/a/b'' ''/'' \<and> CHR ''/'' \<in> set ''/a/b''
   \<and> (\<exists>dir seg. ''/a/b'' = dir @ seg \<and> seg \<noteq> [] \<and> CHR ''/'' \<notin> set seg \<and> endswith dir ''/''
         \<and> directory_url offline_env ''https://x.com/a/b'' = ''https'' @ ''://'' @ ''x.com'' @ dir)
   \<and> directory_url offline_env ''https://x.com/a/b''
       \<in> extract_directories offline_env {''https://x.com/a/b'', ''https://x.com/a/c''}
   \<and> extract_directories offline_env {''https://x.com/a/b'', ''https://x.com/a/c''} = {''https://x.com/a/''}"
proof -
  have h: "urlparse offline_env ''https://x.com/a/b''
      = \<lparr>scheme = ''https'', hostname = Some ''x.com'', path = ''/a/b''\<rparr>" by code_simp
  have e: "\<not> endswith ''/a/b'' ''/''" by code_simp
  have m: "CHR ''/'' \<in> set ''/a/b''" by simp
  have l: "''https://x.com/a/b'' \<in> {''https://x.com/a/b'', ''https://x.com/a/c''}" by simp
  have x: "extract_directories offline_env {''https://x.com/a/b'', ''https://x.com/a/c''} = {''https://x.com/a/''}"
    by code_simp
  from directory_url_keeps_directory [OF h, of "{''https://x.com/a/b'', ''https://x.com/a/c''}"] e m l
  have "(\<exists>dir seg. ''/a/b'' = dir @ seg \<and> seg \<noteq> [] \<and> CHR ''/'' \<notin> set seg \<and> endswith dir ''/''
         \<and> directory_url offline_env ''https://x.com/a/b'' = ''https'' @ ''://'' @ ''x.com'' @ dir)
     \<and> directory_url offline_env ''https://x.com/a/b''
       \<in> extract_directories offline_env {''https://x.com/a/b'', ''https://x.com/a/c''}"
    by blast
  with h e m x show ?thesis by blast
qed

section \<open>The depth limit\<close>












section \<open>Failed fetches\<close>



lemma commit_links_empty [simp]: "commit_links a e (empty_result u) s = s"
  by (simp add: commit_links_def empty_result_def)



section \<open>The host of the frontier\<close>

lemma loop_state_frontier_host:
  "loop_state a e st n = Some s \<Longrightarrow> u \<in> to_visit s \<Longrightarrow> get_hostname e u = get_hostname e st"
proof (cases n)
  case 0
  assume "loop_state a e st n = Some s" "u \<in> to_visit s"
  with 0 show ?thesis by (auto simp: initial_state_def)
next
  case (Suc m)
  assume h: "loop_state a e st n = Some s" "u \<in> to_visit s"
  from h(1) Suc obtain s0 where s: "s = run_batch a e st m s0"
    by (auto split: option.splits if_splits)
  have "u \<in> (\<Union>rp \<in> set (map (process_url a e st m) (as_completed e m (to_visit s0))).
                internal (fst rp))"
    using collect_frontier_internal
      [of a e "map (process_url a e st m) (as_completed e m (to_visit s0))" "s0\<lparr>to_visit := {}\<rparr>"]
      h(2)
    by (auto simp: s run_batch_def Let_def)
  then show ?thesis by (auto dest: internal_process_url_host)
qed

text \<open>
  Every URL in the frontier has the host name of the seed as \<open>get_hostname\<close> computes it,
  so the test that guards the skip branch of \<open>process_url\<close> fails for every URL of every
  batch, and every queued URL is fetched.
\<close>

lemma frontier_keeps_computed_host:
  assumes "loop_state a e st n = Some s" and "u \<in> to_visit s"
  shows "get_hostname e u = get_hostname e st
     \<and> fst (process_url a e st n u) =
         (case fst (extract_links a e n u) of
            Inl msg \<Rightarrow> empty_result u
          | Inr (links, ms, ns) \<Rightarrow>
              \<lparr>current_url = u, internal = fst (split_links e st links),
               external = snd (split_links e st links), mailtos = ms, non_htmls = ns\<rparr>)"
proof -
  have h: "get_hostname e u = get_hostname e st"
    by (rule loop_state_frontier_host [OF assms])
  then show ?thesis
    by (auto simp: process_url_def split: prod.splits sum.splits)
qed

text \<open>
  Claim C9 (every URL that enters the frontier has the www-stripped host name of the seed,
  and no external URL is ever fetched). What \<open>get_hostname\<close> computes is not the host name
  without the prefix \<open>www.\<close>: for the seed \<open>https://www.w3.org/\<close> it is \<open>3.org\<close>. The link
  \<open>https://3.org/\<close> on the home page, of another host, is classified internal and queued,
  and the second batch fetches it: the \<open>mailto:\<close> reference of that page is in the result
  of its task and in the sets the crawl returns.
\<close>

theorem frontier_leaves_seed_host:
  "hostname (urlparse w3_env ''https://www.w3.org/'') = Some ''www.w3.org''
   \<and> hostname (urlparse w3_env ''https://3.org/'') = Some ''3.org''
   \<and> map_option to_visit (loop_state (default_args ''https://www.w3.org/'') w3_env ''https://www.w3.org/'' 1)
       = Some {''https://3.org/''}
   \<and> mailtos (fst (process_url (default_args ''https://www.w3.org/'') w3_env ''https://www.w3.org/'' 1
                      ''https://3.org/'')) = {''mailto:owner@3.org''}
   \<and> crawl_website (default_args ''https://www.w3.org/'') w3_env ''https://www.w3.org/'' 1
       = Some (Inr ({''https://3.org/''}, {}, {''mailto:owner@3.org''}, {}))"
  by code_simp

section \<open>The output flags\<close>

lemma extract_links_any_args: "fst (extract_links a' e k u) = fst (extract_links a e k u)"
  by (simp add: extract_links_def Let_def split: fetch_outcome.splits)

lemma process_url_any_args: "fst (process_url a' e st k u) = fst (process_url a e st k u)"
proof -
  obtain x p where x: "extract_links a e k u = (x, p)" by (cases "extract_links a e k u")
  obtain x' p' where x': "extract_links a' e k u = (x', p')" by (cases "extract_links a' e k u")
  have "x' = x" using extract_links_any_args [of a' e k u a] x x' by simp
  with x x' show ?thesis
    by (simp add: process_url_def split: prod.splits sum.splits)
qed

lemma crawl_core_eq:
  "crawl_core s' = crawl_core s \<longleftrightarrow>
     visited s' = visited s \<and> to_visit s' = to_visit s \<and> all_internal s' = all_internal s
     \<and> all_external s' = all_external s \<and> mailto_links s' = mailto_links s
     \<and> non_html_links s' = non_html_links s \<and> is_done s' = is_done s"
  by (auto simp: crawl_core_def returned_sets_def)

lemma collect_core:
  assumes "max_arg a' = max_arg a" "depth a' = depth a"
  shows "map fst rs' = map fst rs \<Longrightarrow> crawl_core s' = crawl_core s
     \<Longrightarrow> crawl_core (collect a' e rs' s') = crawl_core (collect a e rs s)"
proof (induction rs arbitrary: rs' s s')
  case Nil
  then show ?case by simp
next
  case (Cons rp rs)
  from Cons.prems(1) obtain rp' rest' where rs': "rs' = rp' # rest'"
    and f: "fst rp' = fst rp" and m: "map fst rest' = map fst rs"
    by (cases rs') auto
  have c1: "crawl_core (mark_visited rp' s') = crawl_core (mark_visited rp s)"
    using Cons.prems(2) f by (simp add: crawl_core_eq)
  then have mr: "max_reached a' (mark_visited rp' s') = max_reached a (mark_visited rp s)"
    using assms(1) by (simp add: max_reached_def crawl_core_eq)
  show ?case
  proof (cases "max_reached a (mark_visited rp s)")
    case True
    with mr c1 show ?thesis by (simp add: rs' Let_def crawl_core_eq)
  next
    case False
    have "crawl_core (commit_links a' e (fst rp') (mark_visited rp' s'))
        = crawl_core (commit_links a e (fst rp) (mark_visited rp s))"
      using c1 f assms(2) by (simp add: crawl_core_eq commit_links_def)
    from Cons.IH [OF m this] False mr show ?thesis by (simp add: rs' Let_def)
  qed
qed

lemma run_batch_core:
  assumes "max_arg a' = max_arg a" "depth a' = depth a" "crawl_core s' = crawl_core s"
  shows "crawl_core (run_batch a' e st k s') = crawl_core (run_batch a e st k s)"
proof -
  have tv: "to_visit s' = to_visit s" using assms(3) by (simp add: crawl_core_eq)
  have "crawl_core (s'\<lparr>to_visit := {}\<rparr>) = crawl_core (s\<lparr>to_visit := {}\<rparr>)"
    using assms(3) by (simp add: crawl_core_eq)
  moreover have "map fst (map (process_url a' e st k) (as_completed e k (to_visit s)))
      = map fst (map (process_url a e st k) (as_completed e k (to_visit s)))"
    by (simp add: process_url_any_args [of a' e st k _ a])
  ultimately show ?thesis
    using collect_core [OF assms(1,2)] by (simp add: run_batch_def Let_def tv)
qed

lemma crawl_loop_core:
  assumes "crawl_loop a e st k s = Some r"
  shows "\<forall>(a'::args) s'. max_arg a' = max_arg a \<and> depth a' = depth a \<and> crawl_core s' = crawl_core s
           \<longrightarrow> (\<exists>r'. crawl_loop a' e st k s' = Some r' \<and> crawl_core r' = crawl_core r)"
  using assms
proof (induction rule: crawl_loop.raw_induct [rotated 1, consumes 1, case_names step])
  case (step f a e start_url k s r)
  show ?case
  proof (intro allI impI)
    fix a' :: args and s'
    assume h: "max_arg a' = max_arg a \<and> depth a' = depth a \<and> crawl_core s' = crawl_core s"
    then have lc: "loop_continues s' = loop_continues s"
      by (simp add: loop_continues_def crawl_core_eq)
    show "\<exists>r'. crawl_loop a' e start_url k s' = Some r' \<and> crawl_core r' = crawl_core r"
    proof (cases "loop_continues s")
      case False
      with step(2) have "r = s" by simp
      moreover have "crawl_loop a' e start_url k s' = Some s'"
        using False lc by (subst crawl_loop.simps) simp
      ultimately show ?thesis using h by simp
    next
      case True
      with step(2) have "f a e start_url (Suc k) (run_batch a e start_url k s) = Some r"
        by simp
      then have "\<forall>(a'::args) s'. max_arg a' = max_arg a \<and> depth a' = depth a
            \<and> crawl_core s' = crawl_core (run_batch a e start_url k s)
           \<longrightarrow> (\<exists>r'. crawl_loop a' e start_url (Suc k) s' = Some r' \<and> crawl_core r' = crawl_core r)"
        by (rule step(1))
      with h run_batch_core [of a' a s' s e start_url k]
      obtain r' where "crawl_loop a' e start_url (Suc k) (run_batch a' e start_url k s') = Some r'"
        "crawl_core r' = crawl_core r" by blast
      moreover have "crawl_loop a' e start_url k s'
          = crawl_loop a' e start_url (Suc k) (run_batch a' e start_url k s')"
        using True lc by (subst crawl_loop.simps) simp
      ultimately show ?thesis by simp
    qed
  qed
qed

lemma crawl_loop_core_eq:
  assumes "max_arg a' = max_arg a" "depth a' = depth a" "crawl_core s' = crawl_core s"
  shows "map_option crawl_core (crawl_loop a' e st k s') = map_option crawl_core (crawl_loop a e st k s)"
proof (cases "crawl_loop a e st k s")
  case None
  have "crawl_loop a' e st k s' = None"
  proof (cases "crawl_loop a' e st k s'")
    case (Some r')
    from crawl_loop_core [OF this] assms None show ?thesis by force
  qed simp
  with None show ?thesis by simp
next
  case (Some r)
  from crawl_loop_core [OF this] assms show ?thesis using Some by force
qed

text \<open>
  Claim C10: for any seed, answers of the network, completion order and settings of
  \<open>-m\<close>, \<open>-d\<close> and \<open>-t\<close>, setting \<open>-v\<close> or \<open>-f\<close> changes neither the four sets the crawl
  returns nor the state it ends in (nor whether it ends): the two flags reach the printed
  lines only.
\<close>

theorem crawl_results_ignore_output_flags:
  "crawl_website (a\<lparr>verbose := v, full_links := f\<rparr>) e start_url thread_count
     = crawl_website a e start_url thread_count
   \<and> map_option (map_sum id crawl_core)
        (crawl_run (a\<lparr>verbose := v, full_links := f\<rparr>) e start_url thread_count)
     = map_option (map_sum id crawl_core) (crawl_run a e start_url thread_count)"
proof -
  let ?a' = "a\<lparr>verbose := v, full_links := f\<rparr>"
  have eq: "map_option crawl_core (crawl_loop ?a' e start_url 0 (initial_state start_url))
      = map_option crawl_core (crawl_loop a e start_url 0 (initial_state start_url))"
    by (rule crawl_loop_core_eq) simp_all
  have rs: "returned_sets = fst \<circ> snd \<circ> crawl_core"
    by (auto simp: crawl_core_def)
  have core: "map_option (map_sum id crawl_core) (crawl_run ?a' e start_url thread_count)
     = map_option (map_sum id crawl_core) (crawl_run a e start_url thread_count)"
  proof -
    have "map_option (Inr :: _ \<Rightarrow> error + _)
          (map_option crawl_core (crawl_loop ?a' e start_url 0 (initial_state start_url)))
        = map_option Inr (map_option crawl_core (crawl_loop a e start_url 0 (initial_state start_url)))"
      using eq by simp
    then show ?thesis by (simp add: crawl_run_def option.map_comp comp_def)
  qed
  have "map_option (map_sum id (fst \<circ> snd)) (map_option (map_sum id crawl_core) (crawl_run ?a' e start_url thread_count))
     = map_option (map_sum id (fst \<circ> snd)) (map_option (map_sum id crawl_core) (crawl_run a e start_url thread_count))"
    using core by simp
  then have "crawl_website ?a' e start_url thread_count = crawl_website a e start_url thread_count"
    by (simp add: crawl_website_def rs option.map_comp sum.map_comp comp_def id_def)
  with core show ?thesis by simp
qed

end
